theory Spec2Isabelle
  imports Main "HOL-Library.Multiset"
begin

section \<open>webcheck: resolving host names and probing ports 80 and 443\<close>

text \<open>
  The development follows \<^verbatim>\<open>main.go\<close>. The network and the Go runtime are not part of
  the program, so they are parameters of the model: a record of operations over an
  arbitrary world state \<open>'w\<close>. Every call the program makes to \<^verbatim>\<open>net.LookupHost\<close>,
  \<^verbatim>\<open>net.DialTimeout\<close> and \<^verbatim>\<open>conn.Close\<close> is also written to a list of events, with
  the arguments the call was given, so that statements about which calls are made (and
  with which arguments) can be phrased on the result of a function.
\<close>

subsection \<open>Data\<close>

text \<open>The values of Go's \<^verbatim>\<open>error\<close> that the network calls can return.\<close>

datatype neterror =
    ErrNoSuchHost
  | ErrTimeout
  | ErrRefused
  | ErrUnreachable
  | ErrOther string

text \<open>An established connection, as far as the program uses it: a handle to close.\<close>

type_synonym conn = nat

text \<open>\<^verbatim>\<open>time.Duration\<close>: a number of nanoseconds. The two durations of the program are
  constants far below \<open>2 ^ 63\<close>, so no arithmetic on them can wrap.\<close>

type_synonym Duration = int

definition Second :: Duration where
  "Second = 1000000000"

text \<open>\<^verbatim>\<open>type hostInfo struct { name string; addrs []string; ports []string; err error }\<close>.
  A nil slice and an empty slice are both \<open>[]\<close>; a nil error is \<open>None\<close>.\<close>

record hostInfo =
  name :: string
  addrs :: "string list"
  ports :: "string list"
  err :: "neterror option"

text \<open>What the program asks of its environment, with the arguments it passes.\<close>

datatype event =
    EvLookupHost string
  | EvDialTimeout string string Duration "neterror option"
  | EvClose conn

text \<open>
  The environment. \<open>LookupHost\<close> and \<open>DialTimeout\<close> either fail with an error or
  succeed with a value, and may change the world; \<open>Close\<close> closes a connection;
  \<open>mapiter\<close> is the Go runtime's choice of where the iteration over a map starts
  (Go leaves the order of \<^verbatim>\<open>range\<close> over a map unspecified, and it may differ from
  one \<^verbatim>\<open>range\<close> statement to the next).
\<close>

record 'w netenv =
  LookupHost :: "string \<Rightarrow> 'w \<Rightarrow> (neterror + string list) \<times> 'w"
  DialTimeout :: "string \<Rightarrow> string \<Rightarrow> Duration \<Rightarrow> 'w \<Rightarrow> (neterror + conn) \<times> 'w"
  Close :: "conn \<Rightarrow> 'w \<Rightarrow> 'w"
  mapiter :: "'w \<Rightarrow> nat \<times> 'w"

subsection \<open>The Go operations the program uses\<close>

text \<open>\<^verbatim>\<open>addrs, err := net.LookupHost(host)\<close>: Go returns the pair; on an error the
  slice of addresses is nil.\<close>

definition net_LookupHost ::
  "'w netenv \<Rightarrow> string \<Rightarrow> 'w \<Rightarrow> (string list \<times> neterror option) \<times> event list \<times> 'w" where
  "net_LookupHost env host w =
     (case LookupHost env host w of
        (Inl e, w') \<Rightarrow> (([], Some e), [EvLookupHost host], w')
      | (Inr as, w') \<Rightarrow> ((as, None), [EvLookupHost host], w'))"

text \<open>\<^verbatim>\<open>conn, err := net.DialTimeout(network, address, timeout)\<close>.\<close>

definition net_DialTimeout ::
  "'w netenv \<Rightarrow> string \<Rightarrow> string \<Rightarrow> Duration \<Rightarrow> 'w \<Rightarrow> (neterror + conn) \<times> event list \<times> 'w" where
  "net_DialTimeout env network address timeout w =
     (case DialTimeout env network address timeout w of
        (Inl e, w') \<Rightarrow> (Inl e, [EvDialTimeout network address timeout (Some e)], w')
      | (Inr c, w') \<Rightarrow> (Inr c, [EvDialTimeout network address timeout None], w'))"

text \<open>\<^verbatim>\<open>conn.Close()\<close>; the error it returns is dropped by the program.\<close>

definition conn_Close :: "'w netenv \<Rightarrow> conn \<Rightarrow> 'w \<Rightarrow> event list \<times> 'w" where
  "conn_Close env c w = ([EvClose c], Close env c w)"

text \<open>A \<^verbatim>\<open>map[string]bool\<close>, as the list of its entries with distinct keys.\<close>

type_synonym portmap = "(string \<times> bool) list"

text \<open>\<^verbatim>\<open>m[k]\<close>: the value stored for \<open>k\<close>, and \<^verbatim>\<open>false\<close> (the zero value) for a
  missing key.\<close>

definition map_index :: "portmap \<Rightarrow> string \<Rightarrow> bool" where
  "map_index m k = (case map_of m k of Some b \<Rightarrow> b | None \<Rightarrow> False)"

text \<open>\<^verbatim>\<open>m[k] = v\<close>: overwrites the entry of an existing key, adds one otherwise.\<close>

fun map_assign :: "portmap \<Rightarrow> string \<Rightarrow> bool \<Rightarrow> portmap" where
  "map_assign [] k v = [(k, v)]"
| "map_assign ((k', v') # m) k v =
     (if k' = k then (k, v) # m else (k', v') # map_assign m k v)"

text \<open>\<^verbatim>\<open>for k := range m\<close>: every key once, starting where the runtime chooses. The
  map of the program has two keys, and the rotations of a two-element list are all its
  orders.\<close>

definition map_range :: "'w netenv \<Rightarrow> portmap \<Rightarrow> 'w \<Rightarrow> string list \<times> 'w" where
  "map_range env m w = (case mapiter env w of (n, w') \<Rightarrow> (rotate n (map fst m), w'))"

subsection \<open>resolveOne\<close>

text \<open>
  The inner loop, for one address \<open>a\<close> and the keys \<open>ps\<close> still to visit:
  \<^verbatim>\<open>
  for p := range ports {
      conn, err := net.DialTimeout("tcp", a+":"+p, timeout)
      if err != nil { continue }
      conn.Close()
      ports[p] = true
  }
  \<close>
\<close>

fun dial_ports ::
  "'w netenv \<Rightarrow> Duration \<Rightarrow> string \<Rightarrow> string list \<Rightarrow> portmap \<Rightarrow> 'w \<Rightarrow> portmap \<times> event list \<times> 'w" where
  "dial_ports env timeout a [] pm w = (pm, [], w)"
| "dial_ports env timeout a (p # ps) pm w =
     (case net_DialTimeout env ''tcp'' (a @ '':'' @ p) timeout w of
        (Inl e, evs, w1) \<Rightarrow>
          (case dial_ports env timeout a ps pm w1 of
             (pm', evs', w') \<Rightarrow> (pm', evs @ evs', w'))
      | (Inr c, evs, w1) \<Rightarrow>
          (case conn_Close env c w1 of
             (evs1, w2) \<Rightarrow>
               (case dial_ports env timeout a ps (map_assign pm p True) w2 of
                  (pm', evs', w') \<Rightarrow> (pm', evs @ evs1 @ evs', w'))))"

text \<open>The outer loop, \<^verbatim>\<open>for _, a := range hi.addrs\<close>: each address starts a new
  \<^verbatim>\<open>range\<close> over the map.\<close>

fun probe_addrs ::
  "'w netenv \<Rightarrow> Duration \<Rightarrow> string list \<Rightarrow> portmap \<Rightarrow> 'w \<Rightarrow> portmap \<times> event list \<times> 'w" where
  "probe_addrs env timeout [] pm w = (pm, [], w)"
| "probe_addrs env timeout (a # as) pm w =
     (case map_range env pm w of
        (ks, w1) \<Rightarrow>
          (case dial_ports env timeout a ks pm w1 of
             (pm1, evs1, w2) \<Rightarrow>
               (case probe_addrs env timeout as pm1 w2 of
                  (pm', evs', w') \<Rightarrow> (pm', evs1 @ evs', w'))))"

text \<open>
  The last loop, over the keys \<open>ps\<close> still to visit, appending to \<^verbatim>\<open>hi.ports\<close>:
  \<^verbatim>\<open>
  for p := range ports {
      if ports[p] { hi.ports = append(hi.ports, p) }
  }
  \<close>
\<close>

fun collect_ports :: "portmap \<Rightarrow> string list \<Rightarrow> string list \<Rightarrow> string list" where
  "collect_ports pm [] acc = acc"
| "collect_ports pm (p # ps) acc =
     (if map_index pm p then collect_ports pm ps (acc @ [p]) else collect_ports pm ps acc)"

text \<open>\<^verbatim>\<open>func resolveOne(host string) *hostInfo\<close>, returning the result, the calls made
  and the world after them.\<close>

definition resolveOne :: "'w netenv \<Rightarrow> string \<Rightarrow> 'w \<Rightarrow> hostInfo \<times> event list \<times> 'w" where
  "resolveOne env host w =
     (let hi = \<lparr>name = host, addrs = [], ports = [], err = None\<rparr> in
      case net_LookupHost env host w of
        ((as, e), evs0, w1) \<Rightarrow>
          let hi = hi\<lparr>addrs := as, err := e\<rparr> in
          if err hi \<noteq> None then (hi, evs0, w1)
          else
            let pm0 = [(''80'', False), (''443'', False)];
                timeout = Second * 3
            in case probe_addrs env timeout (addrs hi) pm0 w1 of
                 (pm, evs1, w2) \<Rightarrow>
                   (case map_range env pm w2 of
                      (ks, w3) \<Rightarrow>
                        (hi\<lparr>ports := collect_ports pm ks (ports hi)\<rparr>, evs0 @ evs1, w3)))"

subsection \<open>Reading the calls a run made\<close>

text \<open>The addresses passed to \<^verbatim>\<open>net.DialTimeout\<close>, in the order of the calls.\<close>

fun dial_addr :: "event \<Rightarrow> string list" where
  "dial_addr (EvDialTimeout n a t r) = [a]"
| "dial_addr _ = []"

definition dialed :: "event list \<Rightarrow> string list" where
  "dialed evs = concat (map dial_addr evs)"

text \<open>Some call of \<^verbatim>\<open>net.DialTimeout\<close> with the address string \<open>x\<close> returned a
  connection. This is about the string that was passed, whatever host and port it
  denotes to the network.\<close>

fun dial_connected :: "string \<Rightarrow> event \<Rightarrow> bool" where
  "dial_connected x (EvDialTimeout n a t r) = (a = x \<and> r = None)"
| "dial_connected x _ = False"

definition connected :: "event list \<Rightarrow> string \<Rightarrow> bool" where
  "connected evs x = (\<exists>ev \<in> set evs. dial_connected x ev)"


subsection \<open>An environment to run the program in\<close>

text \<open>
  The world counts the calls made so far. \<open>up.test\<close> has two addresses, of which only
  the second listens, on port 80; \<open>empty.test\<close> resolves to no address at all; every
  other name does not resolve. The iteration over a map starts at the call count, so
  both orders of the two ports occur.
\<close>

definition example_net :: "nat netenv" where
  "example_net =
     \<lparr>LookupHost = (\<lambda>h w.
        (if h = ''up.test'' then Inr [''10.0.0.1'', ''10.0.0.2'']
         else if h = ''empty.test'' then Inr []
         else Inl ErrNoSuchHost, Suc w)),
      DialTimeout = (\<lambda>n a t w.
        (if a = ''10.0.0.2:80'' then Inr 7
         else if a = ''10.0.0.1:443'' then Inl ErrRefused
         else Inl ErrTimeout, Suc w)),
      Close = (\<lambda>c w. Suc w),
      mapiter = (\<lambda>w. (w, Suc w))\<rparr>"

subsection \<open>Addresses as the net package reads them\<close>

text \<open>
  \<^verbatim>\<open>net.DialTimeout\<close> takes its address as one string and splits it into host and port
  as \<^verbatim>\<open>net.SplitHostPort\<close> does; \<^verbatim>\<open>net.JoinHostPort\<close> is the package's way to build
  that string. Both belong to Go's library, not to the program; they are written here
  after the package documentation: a host with a colon in it (a literal IPv6 address)
  goes in square brackets, and the port starts after the last colon.
\<close>

definition JoinHostPort :: "string \<Rightarrow> string \<Rightarrow> string" where
  "JoinHostPort host port =
     (if CHR '':'' \<in> set host then ''['' @ host @ '']:'' @ port else host @ '':'' @ port)"

definition SplitHostPort :: "string \<Rightarrow> neterror + (string \<times> string)" where
  "SplitHostPort hostport =
     (if CHR '':'' \<notin> set hostport then Inl (ErrOther ''missing port in address'')
      else
        let port = rev (takeWhile (\<lambda>c. c \<noteq> CHR '':'') (rev hostport));
            front = take (length hostport - length port - 1) hostport
        in if hd hostport = CHR ''['' then
             (let inner = takeWhile (\<lambda>c. c \<noteq> CHR '']'') (tl hostport)
              in if CHR '']'' \<notin> set hostport then Inl (ErrOther ''missing ] in address'')
                 else if length inner + 2 = length hostport
                   then Inl (ErrOther ''missing port in address'')
                 else if length inner + 2 = length front then
                   (if CHR ''['' \<in> set (tl hostport)
                      then Inl (ErrOther ''unexpected [ in address'')
                    else if CHR '']'' \<in> set (drop (length inner + 2) hostport)
                      then Inl (ErrOther ''unexpected ] in address'')
                    else Inr (inner, port))
                 else if hostport ! (length inner + 2) = CHR '':''
                   then Inl (ErrOther ''too many colons in address'')
                 else Inl (ErrOther ''missing port in address''))
           else if CHR '':'' \<in> set front then Inl (ErrOther ''too many colons in address'')
           else if CHR ''['' \<in> set hostport then Inl (ErrOther ''unexpected [ in address'')
           else if CHR '']'' \<in> set hostport then Inl (ErrOther ''unexpected ] in address'')
           else Inr (front, port))"

text \<open>\<^verbatim>\<open>net.DialTimeout\<close> on a network where \<open>listening host port\<close> says who accepts
  connections: an address that does not split is refused before anything is sent.\<close>

definition go_DialTimeout ::
  "(string \<Rightarrow> string \<Rightarrow> bool) \<Rightarrow> string \<Rightarrow> string \<Rightarrow> Duration \<Rightarrow> nat \<Rightarrow> (neterror + conn) \<times> nat" where
  "go_DialTimeout listening network address timeout w =
     (case SplitHostPort address of
        Inl e \<Rightarrow> (Inl e, Suc w)
      | Inr (host, port) \<Rightarrow> (if listening host port then Inr 9 else Inl ErrRefused, Suc w))"

text \<open>An environment in which \<open>v6.test\<close> has the one address \<open>::1\<close>, and \<open>::1\<close> accepts
  connections on port 80 and on no other port.\<close>

definition example_net6 :: "nat netenv" where
  "example_net6 =
     \<lparr>LookupHost = (\<lambda>h w. (if h = ''v6.test'' then Inr [''::1''] else Inl ErrNoSuchHost, Suc w)),
      DialTimeout = go_DialTimeout (\<lambda>host port. host = ''::1'' \<and> port = ''80''),
      Close = (\<lambda>c w. Suc w),
      mapiter = (\<lambda>w. (w, Suc w))\<rparr>"

subsection \<open>Channels and wait groups\<close>

text \<open>
  What an operation of a goroutine can do: block (the goroutine does not move), panic
  (the program crashes), or complete with a value.
\<close>

datatype 'a outcome = Blocked | Panic | Ok 'a

text \<open>A buffered \<^verbatim>\<open>chan *hostInfo\<close>: the values sent and not yet received, oldest first,
  the capacity of the buffer, and whether the channel has been closed.\<close>

record chan =
  chan_buf :: "hostInfo list"
  chan_cap :: nat
  chan_closed :: bool

text \<open>\<^verbatim>\<open>make(chan *hostInfo, n)\<close>.\<close>

definition make_chan :: "nat \<Rightarrow> chan" where
  "make_chan n = \<lparr>chan_buf = [], chan_cap = n, chan_closed = False\<rparr>"

text \<open>\<^verbatim>\<open>ch <- x\<close>: panics on a closed channel, blocks while the buffer is full.\<close>

definition chan_send :: "hostInfo \<Rightarrow> chan \<Rightarrow> chan outcome" where
  "chan_send x ch =
     (if chan_closed ch then Panic
      else if length (chan_buf ch) < chan_cap ch then Ok (ch\<lparr>chan_buf := chan_buf ch @ [x]\<rparr>)
      else Blocked)"

text \<open>One round of \<^verbatim>\<open>for r := range ch\<close>: the oldest value if there is one; on an
  empty channel the loop ends (\<open>None\<close>) if the channel is closed and blocks otherwise.\<close>

definition chan_recv :: "chan \<Rightarrow> (hostInfo option \<times> chan) outcome" where
  "chan_recv ch =
     (case chan_buf ch of
        x # xs \<Rightarrow> Ok (Some x, ch\<lparr>chan_buf := xs\<rparr>)
      | [] \<Rightarrow> if chan_closed ch then Ok (None, ch) else Blocked)"

text \<open>\<^verbatim>\<open>close(ch)\<close>: panics on a channel that is closed already.\<close>

definition chan_close :: "chan \<Rightarrow> chan outcome" where
  "chan_close ch = (if chan_closed ch then Panic else Ok (ch\<lparr>chan_closed := True\<rparr>))"

text \<open>A \<^verbatim>\<open>sync.WaitGroup\<close> is its counter, an integer as in the documentation of the
  package (the runtime's 32 bits would take \<open>2 ^ 31\<close> goroutines to overflow). \<^verbatim>\<open>Add\<close>
  panics when the counter would become negative, \<^verbatim>\<open>Done\<close> is \<^verbatim>\<open>Add(-1)\<close>, \<^verbatim>\<open>Wait\<close>
  blocks until the counter is zero.\<close>

definition wg_Add :: "int \<Rightarrow> int \<Rightarrow> int outcome" where
  "wg_Add delta n = (if n + delta < 0 then Panic else Ok (n + delta))"

definition wg_Done :: "int \<Rightarrow> int outcome" where
  "wg_Done n = wg_Add (- 1) n"

definition wg_Wait :: "int \<Rightarrow> unit outcome" where
  "wg_Wait n = (if n = 0 then Ok () else Blocked)"

subsection \<open>resolveAll\<close>

text \<open>
  \<^verbatim>\<open>
  func resolveAll(hosts []string) <-chan *hostInfo {
      const timeout = time.Second * 5
      rc := make(chan *hostInfo, 1<<10)
      go func() {
          var wg sync.WaitGroup
          for _, h := range hosts {
              h := h
              wg.Add(1)
              go func() {
                  rc <- resolveOne(h)
                  wg.Done()
              }()
          }
          wg.Wait()
          close(rc)
      }()
      return rc
  }
  \<close>
  The function starts one goroutine (the dispatcher), which starts one goroutine per host
  (the workers); the caller, \<^verbatim>\<open>for r := range resolveAll(hosts)\<close> in \<^verbatim>\<open>main\<close>, is the
  consumer. Each goroutine is a small program counter, and a run of the program is an
  interleaving of their steps.
\<close>

text \<open>
  Where the dispatcher stands: at the head of the loop with the hosts still to visit
  (with none left, at \<^verbatim>\<open>wg.Wait()\<close>); after \<^verbatim>\<open>wg.Add(1)\<close>, at the \<^verbatim>\<open>go\<close> statement for
  the copy \<open>h\<close> of the loop variable; at \<^verbatim>\<open>close(rc)\<close>; at its end.
\<close>

datatype dispatcher =
    DRange "string list"
  | DGo string "string list"
  | DClose
  | DExit

text \<open>
  Where a worker stands: before \<^verbatim>\<open>resolveOne(h)\<close>; with the result, at the send
  \<^verbatim>\<open>rc <- \<close>; at \<^verbatim>\<open>wg.Done()\<close>; at its end.
\<close>

datatype worker =
    WResolve string
  | WSend hostInfo
  | WDone
  | WExit

text \<open>
  The state of a run: the dispatcher, the workers in the order they were started, the
  counter of \<^verbatim>\<open>wg\<close>, the channel \<^verbatim>\<open>rc\<close>, the results the consumer has read so far,
  whether the consumer is still in its \<^verbatim>\<open>range\<close> loop, and whether the program has
  panicked.
\<close>

record config =
  disp :: dispatcher
  workers :: "worker list"
  wg :: int
  rc :: chan
  received :: "hostInfo list"
  ranging :: bool
  panicked :: bool

datatype goroutine = Dispatcher | Worker nat | Consumer

text \<open>The effect of an operation on the run: a blocked goroutine has no step, a panic
  stops the program.\<close>

fun proceed :: "'a outcome \<Rightarrow> ('a \<Rightarrow> config) \<Rightarrow> config \<Rightarrow> config option" where
  "proceed Blocked f c = None"
| "proceed Panic f c = Some (c\<lparr>panicked := True\<rparr>)"
| "proceed (Ok x) f c = Some (f x)"

definition dispatcher_step :: "config \<Rightarrow> config option" where
  "dispatcher_step c =
     (case disp c of
        DRange (h # hs) \<Rightarrow> proceed (wg_Add 1 (wg c)) (\<lambda>n. c\<lparr>wg := n, disp := DGo h hs\<rparr>) c
      | DGo h hs \<Rightarrow> Some (c\<lparr>workers := workers c @ [WResolve h], disp := DRange hs\<rparr>)
      | DRange [] \<Rightarrow> proceed (wg_Wait (wg c)) (\<lambda>_. c\<lparr>disp := DClose\<rparr>) c
      | DClose \<Rightarrow> proceed (chan_close (rc c)) (\<lambda>ch. c\<lparr>rc := ch, disp := DExit\<rparr>) c
      | DExit \<Rightarrow> None)"

text \<open>
  A step of the \<open>i\<close>-th worker. Its calls to the network are answered from a world of
  its own, \<open>w\<close>: the answers one goroutine gets may depend in any way on what the
  others do meanwhile, and an arbitrary world per goroutine covers every such
  dependence. The calls are taken to return (\<^verbatim>\<open>net.DialTimeout\<close> within its timeout,
  \<^verbatim>\<open>net.LookupHost\<close> within the resolver's own limits).
\<close>

definition worker_step :: "'w netenv \<Rightarrow> 'w \<Rightarrow> nat \<Rightarrow> config \<Rightarrow> config option" where
  "worker_step env w i c =
     (case workers c ! i of
        WResolve h \<Rightarrow> Some (c\<lparr>workers := (workers c)[i := WSend (fst (resolveOne env h w))]\<rparr>)
      | WSend r \<Rightarrow>
          proceed (chan_send r (rc c)) (\<lambda>ch. c\<lparr>rc := ch, workers := (workers c)[i := WDone]\<rparr>) c
      | WDone \<Rightarrow>
          proceed (wg_Done (wg c)) (\<lambda>n. c\<lparr>wg := n, workers := (workers c)[i := WExit]\<rparr>) c
      | WExit \<Rightarrow> None)"

text \<open>A step of the consumer, \<^verbatim>\<open>for r := range resolveAll(hosts) { fmt.Println(r) }\<close>.\<close>

definition consumer_step :: "config \<Rightarrow> config option" where
  "consumer_step c =
     (if ranging c then
        proceed (chan_recv (rc c))
          (\<lambda>(r, ch). case r of
               Some x \<Rightarrow> c\<lparr>rc := ch, received := received c @ [x]\<rparr>
             | None \<Rightarrow> c\<lparr>rc := ch, ranging := False\<rparr>) c
      else None)"

text \<open>One step of the program, by the goroutine the scheduler picks: \<open>None\<close> when that
  goroutine is blocked, has ended or was never started, or the program has panicked.\<close>

definition step :: "'w netenv \<Rightarrow> (nat \<Rightarrow> 'w) \<Rightarrow> goroutine \<Rightarrow> config \<Rightarrow> config option" where
  "step env worlds g c =
     (if panicked c then None
      else case g of
             Dispatcher \<Rightarrow> dispatcher_step c
           | Worker i \<Rightarrow> if i < length (workers c) then worker_step env (worlds i) i c else None
           | Consumer \<Rightarrow> consumer_step c)"

text \<open>A run: the steps of a schedule, one after the other.\<close>

fun exec :: "'w netenv \<Rightarrow> (nat \<Rightarrow> 'w) \<Rightarrow> goroutine list \<Rightarrow> config \<Rightarrow> config option" where
  "exec env worlds [] c = Some c"
| "exec env worlds (g # gs) c =
     (case step env worlds g c of None \<Rightarrow> None | Some c' \<Rightarrow> exec env worlds gs c')"

text \<open>The call \<^verbatim>\<open>resolveAll(hosts)\<close>: it declares the constant, makes the channel, starts
  the dispatcher (whose \<^verbatim>\<open>wg\<close> starts at zero) and returns the channel to the consumer.\<close>

definition resolveAll :: "string list \<Rightarrow> config" where
  "resolveAll hosts =
     (let timeout = Second * 5;
          rc = make_chan (2 ^ 10)
      in \<lparr>disp = DRange hosts, workers = [], wg = 0, rc = rc,
          received = [], ranging = True, panicked = False\<rparr>)"

text \<open>The same function with the declaration \<^verbatim>\<open>const timeout = time.Second * 5\<close> removed,
  to compare \<open>resolveAll\<close> with.\<close>

definition resolveAll_without_timeout :: "string list \<Rightarrow> config" where
  "resolveAll_without_timeout hosts =
     (let rc = make_chan (2 ^ 10)
      in \<lparr>disp = DRange hosts, workers = [], wg = 0, rc = rc,
          received = [], ranging = True, panicked = False\<rparr>)"

subsection \<open>What a run is measured against\<close>

text \<open>The result of the worker started for the \<open>i\<close>-th host, and the results of all
  hosts in the order of the input.\<close>

definition result_of :: "'w netenv \<Rightarrow> (nat \<Rightarrow> 'w) \<Rightarrow> string list \<Rightarrow> nat \<Rightarrow> hostInfo" where
  "result_of env worlds hosts i = fst (resolveOne env (hosts ! i) (worlds i))"

definition results :: "'w netenv \<Rightarrow> (nat \<Rightarrow> 'w) \<Rightarrow> string list \<Rightarrow> hostInfo list" where
  "results env worlds hosts =
     map (\<lambda>i. fst (resolveOne env (hosts ! i) (worlds i))) [0..<length hosts]"

text \<open>The calls of \<^verbatim>\<open>net.LookupHost\<close> among the calls of a run.\<close>

fun is_lookup :: "event \<Rightarrow> bool" where
  "is_lookup (EvLookupHost h) = True"
| "is_lookup _ = False"

text \<open>
  A bound on the steps a run still has: six per host not yet visited (two of the
  dispatcher, three of the worker, one of the consumer), what the goroutines under way
  have left, one receive per buffered value, and the end of the consumer's loop.
\<close>

fun disp_steps :: "dispatcher \<Rightarrow> nat" where
  "disp_steps (DRange hs) = 6 * length hs + 2"
| "disp_steps (DGo h hs) = 6 * length hs + 7"
| "disp_steps DClose = 1"
| "disp_steps DExit = 0"

fun worker_steps :: "worker \<Rightarrow> nat" where
  "worker_steps (WResolve h) = 4"
| "worker_steps (WSend r) = 3"
| "worker_steps WDone = 1"
| "worker_steps WExit = 0"

definition steps_left :: "config \<Rightarrow> nat" where
  "steps_left c =
     disp_steps (disp c) + sum_list (map worker_steps (workers c)) + length (chan_buf (rc c)) +
     (if ranging c then 1 else 0) + (if panicked c then 0 else 1)"

text \<open>
  The invariant of a run. The counter of \<^verbatim>\<open>wg\<close> is the number of workers that have not
  reached their end (one more between \<^verbatim>\<open>wg.Add(1)\<close> and the \<^verbatim>\<open>go\<close> statement); the
  channel is closed only when the dispatcher is at its end, with every host visited and
  every worker at its end; a worker holds the host of its position or the result for it;
  the values received or buffered are the results of the workers that are past their
  send; the consumer leaves its loop only on a closed, empty channel.
\<close>

fun alive :: "worker \<Rightarrow> nat" where
  "alive WExit = 0"
| "alive _ = 1"

fun has_sent :: "worker \<Rightarrow> bool" where
  "has_sent WDone = True"
| "has_sent WExit = True"
| "has_sent _ = False"

definition live :: "worker list \<Rightarrow> nat" where
  "live ws = sum_list (map alive ws)"

definition sent :: "(nat \<Rightarrow> hostInfo) \<Rightarrow> worker list \<Rightarrow> hostInfo multiset" where
  "sent res ws = (\<Sum>i<length ws. if has_sent (ws ! i) then {#res i#} else {#})"

fun good_worker :: "(nat \<Rightarrow> hostInfo) \<Rightarrow> string list \<Rightarrow> nat \<Rightarrow> worker \<Rightarrow> bool" where
  "good_worker res hosts i (WResolve h) = (h = hosts ! i)"
| "good_worker res hosts i (WSend r) = (r = res i)"
| "good_worker res hosts i _ = True"

fun good_disp :: "string list \<Rightarrow> config \<Rightarrow> bool" where
  "good_disp hosts c =
     (case disp c of
        DRange hs \<Rightarrow> hs = drop (length (workers c)) hosts \<and> wg c = int (live (workers c)) \<and>
                     \<not> chan_closed (rc c)
      | DGo h hs \<Rightarrow> h # hs = drop (length (workers c)) hosts \<and>
                     wg c = int (live (workers c)) + 1 \<and> \<not> chan_closed (rc c)
      | DClose \<Rightarrow> length (workers c) = length hosts \<and> live (workers c) = 0 \<and>
                     \<not> chan_closed (rc c)
      | DExit \<Rightarrow> length (workers c) = length hosts \<and> live (workers c) = 0 \<and>
                     chan_closed (rc c))"

definition inv :: "(nat \<Rightarrow> hostInfo) \<Rightarrow> string list \<Rightarrow> config \<Rightarrow> bool" where
  "inv res hosts c \<longleftrightarrow>
     \<not> panicked c \<and>
     length (workers c) \<le> length hosts \<and>
     good_disp hosts c \<and>
     (\<forall>i<length (workers c). good_worker res hosts i (workers c ! i)) \<and>
     mset (received c @ chan_buf (rc c)) = sent res (workers c) \<and>
     (ranging c \<or> chan_closed (rc c) \<and> chan_buf (rc c) = []) \<and>
     chan_cap (rc c) = 2 ^ 10"

text \<open>A schedule for two hosts in which the second host's result is sent first.\<close>

definition example_schedule :: "goroutine list" where
  "example_schedule =
     [Dispatcher, Dispatcher, Worker 0, Dispatcher, Dispatcher, Worker 1, Worker 1, Consumer,
      Worker 0, Worker 1, Worker 0, Dispatcher, Dispatcher, Consumer, Consumer]"

section \<open>Properties of resolveOne\<close>

subsection \<open>The map and the three loops\<close>

lemma map_of_assign: "map_of (map_assign m k v) = (map_of m)(k \<mapsto> v)"
  by (induction m) (auto simp: fun_eq_iff)

lemma map_index_assign: "map_index (map_assign m k v) q = (if q = k then v else map_index m q)"
  by (simp add: map_index_def map_of_assign)

lemma keys_assign: "k \<in> fst ` set m \<Longrightarrow> map fst (map_assign m k v) = map fst m"
  by (induction m) force+

lemma collect_ports_filter: "collect_ports pm ps acc = acc @ filter (map_index pm) ps"
  by (induction ps arbitrary: acc) auto

lemma dialed_append: "dialed (xs @ ys) = dialed xs @ dialed ys"
  by (simp add: dialed_def)

lemma connected_append: "connected (xs @ ys) x = (connected xs x \<or> connected ys x)"
  by (auto simp: connected_def)

lemma count_list_distinct: "distinct xs \<Longrightarrow> count_list xs x = (if x \<in> set xs then 1 else 0)"
  by (induction xs) auto

lemma mset_rotate_eq: "mset (rotate n xs) = mset xs"
proof -
  let ?k = "n mod length xs"
  have "mset (rotate n xs) = mset (drop ?k xs) + mset (take ?k xs)"
    by (simp add: rotate_drop_take)
  also have "\<dots> = mset (take ?k xs @ drop ?k xs)"
    by (simp only: mset_append add.commute)
  finally show ?thesis by simp
qed

lemma map_range_keys:
  "map_range env pm w = (ks, w1) \<Longrightarrow> set ks = fst ` set pm \<and> mset ks = mset (map fst pm)"
  by (force simp: map_range_def mset_rotate_eq split: prod.splits)

text \<open>Two addresses with a candidate port appended are equal only for the same port.\<close>

lemma port_suffix_inj:
  assumes "a @ '':'' @ p = b @ '':'' @ q" "p \<in> {''80'', ''443''}" "q \<in> {''80'', ''443''}"
  shows "p = q"
proof (rule ccontr)
  assume "p \<noteq> q"
  with assms(2,3) consider "p = ''80''" "q = ''443''" | "p = ''443''" "q = ''80''" by auto
  then show False
  proof cases
    case 1
    with assms(1) have "last (a @ '':80'') = last (b @ '':443'')" by simp
    then show False by simp
  next
    case 2
    with assms(1) have "last (a @ '':443'') = last (b @ '':80'')" by simp
    then show False by simp
  qed
qed

lemma dial_ports_keys:
  "dial_ports env t a ps pm w = (pm', evs, w') \<Longrightarrow> set ps \<subseteq> fst ` set pm \<Longrightarrow> map fst pm' = map fst pm"
proof (induction ps arbitrary: pm w pm' evs w')
  case Nil
  then show ?case by simp
next
  case (Cons p ps)
  have k: "map fst (map_assign pm p True) = map fst pm"
    using Cons.prems by (simp add: keys_assign)
  then have s: "set ps \<subseteq> fst ` set (map_assign pm p True)"
    using Cons.prems by (metis list.set_map set_subset_Cons subset_trans)
  from Cons.prems Cons.IH[of pm] Cons.IH[OF _ s] k show ?case
    by (auto simp: net_DialTimeout_def conn_Close_def split: prod.splits sum.splits)
qed

lemma dial_ports_dialed:
  "dial_ports env t a ps pm w = (pm', evs, w') \<Longrightarrow> dialed evs = map (\<lambda>p. a @ '':'' @ p) ps"
  by (induction ps arbitrary: pm w pm' evs w')
     (auto simp: net_DialTimeout_def conn_Close_def dialed_def split: prod.splits sum.splits)


lemma dial_ports_mono:
  "dial_ports env t a ps pm w = (pm', evs, w') \<Longrightarrow> map_index pm q \<Longrightarrow> map_index pm' q"
  by (induction ps arbitrary: pm w pm' evs w')
     (auto simp: net_DialTimeout_def conn_Close_def map_index_assign split: prod.splits sum.splits)

lemma dial_ports_fwd:
  "dial_ports env t a ps pm w = (pm', evs, w') \<Longrightarrow> map_index pm' q \<Longrightarrow>
     map_index pm q \<or> connected evs (a @ '':'' @ q)"
proof (induction ps arbitrary: pm w pm' evs w')
  case Nil
  then show ?case by simp
next
  case (Cons p ps)
  from Cons.prems Cons.IH[of pm] Cons.IH[of "map_assign pm p True"] show ?case
    by (fastforce simp: net_DialTimeout_def conn_Close_def map_index_assign connected_def
          split: prod.splits sum.splits if_splits)
qed

lemma dial_ports_bwd:
  "dial_ports env t a ps pm w = (pm', evs, w') \<Longrightarrow> ev \<in> set evs \<Longrightarrow> dial_connected x ev \<Longrightarrow>
     \<exists>p \<in> set ps. x = a @ '':'' @ p \<and> map_index pm' p"
proof (induction ps arbitrary: pm w pm' evs w')
  case Nil
  then show ?case by simp
next
  case (Cons p ps)
  from Cons.prems Cons.IH[of pm] Cons.IH[of "map_assign pm p True"]
    dial_ports_mono[of env t a ps "map_assign pm p True" _ _ _ _ p]
  show ?case
    by (fastforce simp: net_DialTimeout_def conn_Close_def map_index_assign
          split: prod.splits sum.splits if_splits)
qed

lemma dial_ports_uses:
  "dial_ports env t a ps pm w = (pm', evs, w') \<Longrightarrow> EvDialTimeout n x t' r \<in> set evs \<Longrightarrow> n = ''tcp'' \<and> t' = t"
  by (induction ps arbitrary: pm w pm' evs w')
     (auto simp: net_DialTimeout_def conn_Close_def split: prod.splits sum.splits)


lemma probe_addrs_keys:
  "probe_addrs env t as pm w = (pm', evs, w') \<Longrightarrow> map fst pm' = map fst pm"
proof (induction as arbitrary: pm w pm' evs w')
  case Nil
  then show ?case by simp
next
  case (Cons a as)
  obtain ks w1 where r: "map_range env pm w = (ks, w1)" by (cases "map_range env pm w")
  obtain pm1 evs1 w2 where d: "dial_ports env t a ks pm w1 = (pm1, evs1, w2)"
    by (cases "dial_ports env t a ks pm w1")
  obtain pm2 evs2 w3 where p: "probe_addrs env t as pm1 w2 = (pm2, evs2, w3)"
    by (cases "probe_addrs env t as pm1 w2")
  have "map fst pm1 = map fst pm"
    using dial_ports_keys[OF d] map_range_keys[OF r] by simp
  moreover have "map fst pm2 = map fst pm1" by (rule Cons.IH[OF p])
  moreover have "pm' = pm2" using Cons.prems r d p by simp
  ultimately show ?case by simp
qed

lemma probe_addrs_dialed:
  "probe_addrs env t as pm w = (pm', evs, w') \<Longrightarrow>
     mset (dialed evs) = mset (concat (map (\<lambda>a. map (\<lambda>p. a @ '':'' @ p) (map fst pm)) as))"
proof (induction as arbitrary: pm w pm' evs w')
  case Nil
  then show ?case by (simp add: dialed_def)
next
  case (Cons a as)
  obtain ks w1 where r: "map_range env pm w = (ks, w1)" by (cases "map_range env pm w")
  obtain pm1 evs1 w2 where d: "dial_ports env t a ks pm w1 = (pm1, evs1, w2)"
    by (cases "dial_ports env t a ks pm w1")
  obtain pm2 evs2 w3 where p: "probe_addrs env t as pm1 w2 = (pm2, evs2, w3)"
    by (cases "probe_addrs env t as pm1 w2")
  have k: "map fst pm1 = map fst pm"
    using dial_ports_keys[OF d] map_range_keys[OF r] by simp
  have e: "evs = evs1 @ evs2" using Cons.prems r d p by simp
  have "mset (dialed evs1) = mset (map (\<lambda>p. a @ '':'' @ p) (map fst pm))"
    using dial_ports_dialed[OF d] map_range_keys[OF r] by (metis mset_map)
  with Cons.IH[OF p] k e show ?case
    by (simp add: dialed_append)
qed

lemma probe_addrs_mono:
  "probe_addrs env t as pm w = (pm', evs, w') \<Longrightarrow> map_index pm q \<Longrightarrow> map_index pm' q"
proof (induction as arbitrary: pm w pm' evs w')
  case Nil
  then show ?case by simp
next
  case (Cons a as)
  obtain ks w1 where r: "map_range env pm w = (ks, w1)" by (cases "map_range env pm w")
  obtain pm1 evs1 w2 where d: "dial_ports env t a ks pm w1 = (pm1, evs1, w2)"
    by (cases "dial_ports env t a ks pm w1")
  obtain pm2 evs2 w3 where p: "probe_addrs env t as pm1 w2 = (pm2, evs2, w3)"
    by (cases "probe_addrs env t as pm1 w2")
  have "pm' = pm2" using Cons.prems r d p by simp
  with Cons.IH[OF p] dial_ports_mono[OF d] Cons.prems(2) show ?case by simp
qed

lemma probe_addrs_fwd:
  "probe_addrs env t as pm w = (pm', evs, w') \<Longrightarrow> map_index pm' q \<Longrightarrow>
     map_index pm q \<or> (\<exists>a \<in> set as. connected evs (a @ '':'' @ q))"
proof (induction as arbitrary: pm w pm' evs w')
  case Nil
  then show ?case by simp
next
  case (Cons a as)
  obtain ks w1 where r: "map_range env pm w = (ks, w1)" by (cases "map_range env pm w")
  obtain pm1 evs1 w2 where d: "dial_ports env t a ks pm w1 = (pm1, evs1, w2)"
    by (cases "dial_ports env t a ks pm w1")
  obtain pm2 evs2 w3 where p: "probe_addrs env t as pm1 w2 = (pm2, evs2, w3)"
    by (cases "probe_addrs env t as pm1 w2")
  have e: "pm' = pm2" "evs = evs1 @ evs2" using Cons.prems r d p by simp_all
  from Cons.IH[OF p] Cons.prems(2) e
  have "map_index pm1 q \<or> (\<exists>b \<in> set as. connected evs2 (b @ '':'' @ q))" by simp
  then show ?case
  proof
    assume "map_index pm1 q"
    from dial_ports_fwd[OF d this] show ?thesis
      by (auto simp: e connected_append)
  next
    assume "\<exists>b \<in> set as. connected evs2 (b @ '':'' @ q)"
    then show ?thesis by (auto simp: e connected_append)
  qed
qed

lemma probe_addrs_bwd:
  "probe_addrs env t as pm w = (pm', evs, w') \<Longrightarrow> ev \<in> set evs \<Longrightarrow> dial_connected x ev \<Longrightarrow>
     \<exists>a \<in> set as. \<exists>p \<in> fst ` set pm. x = a @ '':'' @ p \<and> map_index pm' p"
proof (induction as arbitrary: pm w pm' evs w')
  case Nil
  then show ?case by simp
next
  case (Cons a as)
  obtain ks w1 where r: "map_range env pm w = (ks, w1)" by (cases "map_range env pm w")
  obtain pm1 evs1 w2 where d: "dial_ports env t a ks pm w1 = (pm1, evs1, w2)"
    by (cases "dial_ports env t a ks pm w1")
  obtain pm2 evs2 w3 where p: "probe_addrs env t as pm1 w2 = (pm2, evs2, w3)"
    by (cases "probe_addrs env t as pm1 w2")
  have e: "pm' = pm2" "evs = evs1 @ evs2" using Cons.prems r d p by simp_all
  have k: "fst ` set pm1 = fst ` set pm"
    using dial_ports_keys[OF d] map_range_keys[OF r] by (metis list.set_map order_refl)
  from Cons.prems(2) e consider "ev \<in> set evs1" | "ev \<in> set evs2" by auto
  then show ?case
  proof cases
    case 1
    from dial_ports_bwd[OF d 1 Cons.prems(3)]
    obtain q where "q \<in> set ks" "x = a @ '':'' @ q" "map_index pm1 q" by blast
    with probe_addrs_mono[OF p, of q] map_range_keys[OF r] e show ?thesis by auto
  next
    case 2
    from Cons.IH[OF p 2 Cons.prems(3)] k e show ?thesis by auto
  qed
qed

lemma probe_addrs_uses:
  "probe_addrs env t as pm w = (pm', evs, w') \<Longrightarrow> EvDialTimeout n x t' r \<in> set evs \<Longrightarrow> n = ''tcp'' \<and> t' = t"
proof (induction as arbitrary: pm w pm' evs w')
  case Nil
  then show ?case by simp
next
  case (Cons a as)
  obtain ks w1 where r: "map_range env pm w = (ks, w1)" by (cases "map_range env pm w")
  obtain pm1 evs1 w2 where d: "dial_ports env t a ks pm w1 = (pm1, evs1, w2)"
    by (cases "dial_ports env t a ks pm w1")
  obtain pm2 evs2 w3 where p: "probe_addrs env t as pm1 w2 = (pm2, evs2, w3)"
    by (cases "probe_addrs env t as pm1 w2")
  have e: "evs = evs1 @ evs2" using Cons.prems r d p by simp
  with Cons.prems(2) Cons.IH[OF p] dial_ports_uses[OF d] show ?case by auto
qed

subsection \<open>The two ways through resolveOne\<close>

lemma resolveOne_failure:
  assumes "LookupHost env host w = (Inl e, w1)"
  shows "resolveOne env host w =
           (\<lparr>name = host, addrs = [], ports = [], err = Some e\<rparr>, [EvLookupHost host], w1)"
  using assms by (simp add: resolveOne_def net_LookupHost_def)

lemma resolveOne_success:
  assumes "LookupHost env host w = (Inr as, w1)"
  obtains pm evs1 w2 ks w3 where
    "probe_addrs env (Second * 3) as [(''80'', False), (''443'', False)] w1 = (pm, evs1, w2)"
    "map_range env pm w2 = (ks, w3)"
    "resolveOne env host w =
       (\<lparr>name = host, addrs = as, ports = filter (map_index pm) ks, err = None\<rparr>,
        EvLookupHost host # evs1, w3)"
proof -
  obtain pm evs1 w2 where
    p: "probe_addrs env (Second * 3) as [(''80'', False), (''443'', False)] w1 = (pm, evs1, w2)"
    by (cases "probe_addrs env (Second * 3) as [(''80'', False), (''443'', False)] w1")
  obtain ks w3 where r: "map_range env pm w2 = (ks, w3)" by (cases "map_range env pm w2")
  have "resolveOne env host w =
       (\<lparr>name = host, addrs = as, ports = filter (map_index pm) ks, err = None\<rparr>,
        EvLookupHost host # evs1, w3)"
    using assms p r by (simp add: resolveOne_def net_LookupHost_def collect_ports_filter)
  with p r show ?thesis by (rule that)
qed

lemma final_keys:
  assumes "probe_addrs env t as [(''80'', False), (''443'', False)] w1 = (pm, evs1, w2)"
    and "map_range env pm w2 = (ks, w3)"
  shows "set ks = {''80'', ''443''}" "distinct ks"
proof -
  have k: "map fst pm = [''80'', ''443'']" using probe_addrs_keys[OF assms(1)] by simp
  then have "fst ` set pm = {''80'', ''443''}" by (metis list.set_map list.simps(15) empty_set)
  with map_range_keys[OF assms(2)] show "set ks = {''80'', ''443''}" by simp
  have "distinct (map fst pm)" using k by simp
  with assms(2) show "distinct ks" by (auto simp: map_range_def split: prod.splits)
qed




text \<open>
  What decides the open ports of a result: a candidate port is listed, once, exactly when
  a call of \<^verbatim>\<open>net.DialTimeout\<close> with the string \<^verbatim>\<open>a+":"+p\<close> that the program builds for
  one of the resolved addresses returned a connection.
\<close>

lemma resolveOne_ports_by_dial_string:
  assumes "LookupHost env host w = (Inr as, w1)"
    and "resolveOne env host w = (hi, evs, w')"
    and "p \<in> {''80'', ''443''}"
  shows "addrs hi = as \<and>
         (p \<in> set (ports hi) \<longleftrightarrow> (\<exists>a \<in> set as. connected evs (a @ '':'' @ p))) \<and>
         count_list (ports hi) p = (if \<exists>a \<in> set as. connected evs (a @ '':'' @ p) then 1 else 0)"
proof -
  obtain pm evs1 w2 ks w3 where
    p: "probe_addrs env (Second * 3) as [(''80'', False), (''443'', False)] w1 = (pm, evs1, w2)"
    and r: "map_range env pm w2 = (ks, w3)"
    and e: "resolveOne env host w =
       (\<lparr>name = host, addrs = as, ports = filter (map_index pm) ks, err = None\<rparr>,
        EvLookupHost host # evs1, w3)"
    using assms(1) by (rule resolveOne_success)
  have hi: "addrs hi = as" "ports hi = filter (map_index pm) ks" and evs: "evs = EvLookupHost host # evs1"
    using e assms(2) by auto
  have ks: "set ks = {''80'', ''443''}" "distinct ks" using final_keys[OF p r] by auto
  have a: "connected evs x = connected evs1 x" for x
    by (simp add: evs connected_def)
  have "map_index pm p \<longleftrightarrow> (\<exists>a \<in> set as. connected evs (a @ '':'' @ p))"
  proof
    assume "map_index pm p"
    have "\<not> map_index [(''80'', False), (''443'', False)] p"
      by (simp add: map_index_def)
    with probe_addrs_fwd[OF p \<open>map_index pm p\<close>] show "\<exists>a \<in> set as. connected evs (a @ '':'' @ p)"
      by (simp add: a)
  next
    assume "\<exists>a \<in> set as. connected evs (a @ '':'' @ p)"
    then have "\<exists>a \<in> set as. connected evs1 (a @ '':'' @ p)" by (simp add: a)
    then obtain a ev where "a \<in> set as" "ev \<in> set evs1" "dial_connected (a @ '':'' @ p) ev"
      by (auto simp: connected_def)
    from probe_addrs_bwd[OF p this(2,3)]
    obtain b q where "q \<in> {''80'', ''443''}" "a @ '':'' @ p = b @ '':'' @ q" "map_index pm q"
      by auto
    with port_suffix_inj[OF this(2) assms(3) this(1)] show "map_index pm p" by simp
  qed
  moreover have "p \<in> set (ports hi) \<longleftrightarrow> map_index pm p"
    using ks assms(3) by (auto simp: hi)
  moreover have "count_list (ports hi) p = (if p \<in> set (ports hi) then 1 else 0)"
    using ks(2) by (simp add: hi count_list_distinct)
  ultimately show ?thesis using hi(1) by simp
qed

subsection \<open>Two runs\<close>

lemma resolveOne_up_test: "resolveOne example_net ''up.test'' 0 =
  (\<lparr>name = ''up.test'', addrs = [''10.0.0.1'', ''10.0.0.2''], ports = [''80''], err = None\<rparr>,
   [EvLookupHost ''up.test'',
    EvDialTimeout ''tcp'' ''10.0.0.1:443'' 3000000000 (Some ErrRefused),
    EvDialTimeout ''tcp'' ''10.0.0.1:80'' 3000000000 (Some ErrTimeout),
    EvDialTimeout ''tcp'' ''10.0.0.2:80'' 3000000000 None,
    EvClose 7,
    EvDialTimeout ''tcp'' ''10.0.0.2:443'' 3000000000 (Some ErrTimeout)], 9)"
  by (simp add: resolveOne_def net_LookupHost_def net_DialTimeout_def conn_Close_def
        map_range_def example_net_def map_index_def Second_def numeral_eq_Suc)

lemma resolveOne_empty_test: "resolveOne example_net ''empty.test'' 0 =
  (\<lparr>name = ''empty.test'', addrs = [], ports = [], err = None\<rparr>, [EvLookupHost ''empty.test''], 2)"
  by (simp add: resolveOne_def net_LookupHost_def map_range_def example_net_def map_index_def)

section \<open>The claims about resolveOne\<close>

text \<open>
  C3. When the DNS lookup of a host fails, \<open>resolveOne\<close> returns a result with no
  addresses, no open ports and the error of the lookup, and the only call it has made is
  the lookup: no TCP connection is attempted.
\<close>

theorem resolveOne_lookup_failure:
  assumes "LookupHost env host w = (Inl e, w1)"
  shows "resolveOne env host w =
           (\<lparr>name = host, addrs = [], ports = [], err = Some e\<rparr>, [EvLookupHost host], w1) \<and>
         dialed (fst (snd (resolveOne env host w))) = []"
  using assms by (simp add: resolveOne_failure dialed_def)

theorem resolveOne_lookup_failure_witness:
  "LookupHost example_net ''down.test'' 0 = (Inl ErrNoSuchHost, 1) \<and>
   resolveOne example_net ''down.test'' 0 =
     (\<lparr>name = ''down.test'', addrs = [], ports = [], err = Some ErrNoSuchHost\<rparr>,
      [EvLookupHost ''down.test''], 1) \<and>
   dialed (fst (snd (resolveOne example_net ''down.test'' 0))) = []"
proof -
  have h: "LookupHost example_net ''down.test'' 0 = (Inl ErrNoSuchHost, 1)"
    by (simp add: example_net_def)
  from resolveOne_lookup_failure[OF h] h show ?thesis by (simp add: dialed_def)
qed

text \<open>
  C4. A port on which a resolved address answers is not always among the open ports of
  the result. For a literal IPv6 address the string \<^verbatim>\<open>a+":"+p\<close> that \<open>resolveOne\<close>
  passes to \<^verbatim>\<open>net.DialTimeout\<close> is not the address of \<open>a\<close> on port \<open>p\<close> (that is
  \<open>JoinHostPort a p\<close>, with the brackets): the dial is refused for its colons before
  anything is sent, the error is dropped, and the port is left out. Here \<open>v6.test\<close>
  resolves to \<open>::1\<close>, which accepts every connection to port 80, and the result has no
  open port.
\<close>

theorem resolveOne_ipv6_port_missed:
  "resolveOne example_net6 ''v6.test'' 0 =
     (\<lparr>name = ''v6.test'', addrs = [''::1''], ports = [], err = None\<rparr>,
      [EvLookupHost ''v6.test'',
       EvDialTimeout ''tcp'' ''::1:443'' 3000000000
         (Some (ErrOther ''too many colons in address'')),
       EvDialTimeout ''tcp'' ''::1:80'' 3000000000
         (Some (ErrOther ''too many colons in address''))], 5) \<and>
   JoinHostPort ''::1'' ''80'' = ''[::1]:80'' \<and>
   (\<forall>t w. fst (DialTimeout example_net6 ''tcp'' (JoinHostPort ''::1'' ''80'') t w) = Inr 9)"
  by (simp add: resolveOne_def net_LookupHost_def net_DialTimeout_def conn_Close_def
        map_range_def example_net6_def go_DialTimeout_def SplitHostPort_def JoinHostPort_def
        map_index_def Second_def numeral_eq_Suc)

text \<open>
  C5. As stated (addresses are non-empty if and only if the error is null, also when
  the lookup succeeds with no address) the claim fails: a lookup that succeeds with no
  address gives a result with no addresses and a null error.
\<close>

theorem resolveOne_addrs_iff_err_counterexample:
  "\<not> (addrs (fst (resolveOne example_net ''empty.test'' 0)) \<noteq> [] \<longleftrightarrow>
       err (fst (resolveOne example_net ''empty.test'' 0)) = None)"
  by (simp add: resolveOne_empty_test)

text \<open>
  C5, amended. Unless the lookup succeeds with no address, the addresses of the result
  are non-empty if and only if its error is null; when the lookup succeeds with no
  address, the result has no addresses and a null error.
\<close>

theorem resolveOne_addrs_err:
  assumes "resolveOne env host w = (hi, evs, w')"
  shows "(fst (LookupHost env host w) \<noteq> Inr [] \<longrightarrow> (addrs hi \<noteq> [] \<longleftrightarrow> err hi = None)) \<and>
         (fst (LookupHost env host w) = Inr [] \<longrightarrow> addrs hi = [] \<and> err hi = None)"
proof (cases "LookupHost env host w")
  case (Pair res w1)
  show ?thesis
  proof (cases res)
    case (Inl e)
    with Pair assms show ?thesis by (auto simp: resolveOne_failure)
  next
    case (Inr as)
    with Pair have l: "LookupHost env host w = (Inr as, w1)" by simp
    from resolveOne_success[OF l] assms have "addrs hi = as" "err hi = None"
      by (metis fst_conv hostInfo.select_convs(2), metis fst_conv hostInfo.select_convs(4))
    with l show ?thesis by simp
  qed
qed

theorem resolveOne_addrs_err_witness:
  "fst (LookupHost example_net ''up.test'' 0) \<noteq> Inr [] \<and>
   addrs (fst (resolveOne example_net ''up.test'' 0)) \<noteq> [] \<and>
   err (fst (resolveOne example_net ''up.test'' 0)) = None \<and>
   fst (LookupHost example_net ''empty.test'' 0) = Inr [] \<and>
   addrs (fst (resolveOne example_net ''empty.test'' 0)) = []"
proof -
  have h: "fst (LookupHost example_net ''up.test'' 0) \<noteq> Inr []"
    by (simp add: example_net_def)
  have e: "err (fst (resolveOne example_net ''up.test'' 0)) = None"
    by (simp add: resolveOne_up_test)
  have h': "fst (LookupHost example_net ''empty.test'' 0) = Inr []"
    by (simp add: example_net_def)
  from resolveOne_addrs_err[OF resolveOne_up_test] h e
  have "addrs (fst (resolveOne example_net ''up.test'' 0)) \<noteq> []"
    by (simp add: resolveOne_up_test)
  moreover from resolveOne_addrs_err[OF resolveOne_empty_test] h'
  have "addrs (fst (resolveOne example_net ''empty.test'' 0)) = []"
    by (simp add: resolveOne_empty_test)
  ultimately show ?thesis using h e h' by simp
qed

text \<open>
  C6. The open ports of every result of \<open>resolveOne\<close> are among the candidate ports
  \<open>80\<close> and \<open>443\<close>, and no port is listed twice.
\<close>

theorem resolveOne_ports_candidates:
  "set (ports (fst (resolveOne env host w))) \<subseteq> {''80'', ''443''} \<and>
   distinct (ports (fst (resolveOne env host w)))"
proof (cases "LookupHost env host w")
  case (Pair r w1)
  show ?thesis
  proof (cases r)
    case (Inl e)
    with Pair show ?thesis by (simp add: resolveOne_failure)
  next
    case (Inr as)
    with Pair have "LookupHost env host w = (Inr as, w1)" by simp
    then obtain pm evs1 w2 ks w3 where
      p: "probe_addrs env (Second * 3) as [(''80'', False), (''443'', False)] w1 = (pm, evs1, w2)"
      and r: "map_range env pm w2 = (ks, w3)"
      and e: "resolveOne env host w =
       (\<lparr>name = host, addrs = as, ports = filter (map_index pm) ks, err = None\<rparr>,
        EvLookupHost host # evs1, w3)"
      by (rule resolveOne_success)
    from final_keys[OF p r] e show ?thesis by auto
  qed
qed


text \<open>
  C9. Every call of \<^verbatim>\<open>net.DialTimeout\<close> that \<open>resolveOne\<close> makes is a \<open>tcp\<close> dial with
  a timeout of three seconds (3000000000 nanoseconds).
\<close>

theorem resolveOne_dial_timeout:
  assumes "resolveOne env host w = (hi, evs, w')"
    and "EvDialTimeout n x t r \<in> set evs"
  shows "n = ''tcp'' \<and> t = 3 * Second \<and> t = 3000000000"
proof (cases "LookupHost env host w")
  case (Pair res w1)
  show ?thesis
  proof (cases res)
    case (Inl e)
    with Pair assms show ?thesis by (auto simp: resolveOne_failure)
  next
    case (Inr as)
    with Pair have "LookupHost env host w = (Inr as, w1)" by simp
    then obtain pm evs1 w2 ks w3 where
      p: "probe_addrs env (Second * 3) as [(''80'', False), (''443'', False)] w1 = (pm, evs1, w2)"
      and e: "resolveOne env host w =
       (\<lparr>name = host, addrs = as, ports = filter (map_index pm) ks, err = None\<rparr>,
        EvLookupHost host # evs1, w3)"
      by (rule resolveOne_success)
    from e assms have "EvDialTimeout n x t r \<in> set evs1" by auto
    from probe_addrs_uses[OF p this] show ?thesis by (simp add: Second_def)
  qed
qed

theorem resolveOne_dial_timeout_witness:
  "EvDialTimeout ''tcp'' ''10.0.0.1:443'' 3000000000 (Some ErrRefused)
     \<in> set (fst (snd (resolveOne example_net ''up.test'' 0))) \<and>
   (3000000000 :: int) = 3 * Second"
proof -
  have m: "EvDialTimeout ''tcp'' ''10.0.0.1:443'' 3000000000 (Some ErrRefused)
     \<in> set (fst (snd (resolveOne example_net ''up.test'' 0)))"
    by (simp add: resolveOne_up_test)
  have "resolveOne example_net ''up.test'' 0 =
      (fst (resolveOne example_net ''up.test'' 0),
       fst (snd (resolveOne example_net ''up.test'' 0)),
       snd (snd (resolveOne example_net ''up.test'' 0)))"
    by simp
  from resolveOne_dial_timeout[OF this m] m show ?thesis by simp
qed

text \<open>
  C10. When the lookup succeeds with \<open>k\<close> addresses, \<open>resolveOne\<close> dials every address
  on both candidate ports, \<open>2 * k\<close> attempts in all and each pair as often as the address
  is listed, whatever the earlier attempts returned: a port found open on one address
  is dialled on the others all the same.
\<close>

theorem resolveOne_probes_all:
  assumes "LookupHost env host w = (Inr as, w1)"
    and "resolveOne env host w = (hi, evs, w')"
  shows "mset (dialed evs) = mset (concat (map (\<lambda>a. [a @ '':80'', a @ '':443'']) as)) \<and>
         length (dialed evs) = length as * 2"
proof -
  obtain pm evs1 w2 ks w3 where
    p: "probe_addrs env (Second * 3) as [(''80'', False), (''443'', False)] w1 = (pm, evs1, w2)"
    and e: "resolveOne env host w =
       (\<lparr>name = host, addrs = as, ports = filter (map_index pm) ks, err = None\<rparr>,
        EvLookupHost host # evs1, w3)"
    using assms(1) by (rule resolveOne_success)
  have "dialed evs = dialed evs1" using e assms(2) by (simp add: dialed_def)
  with probe_addrs_dialed[OF p]
  have m: "mset (dialed evs) = mset (concat (map (\<lambda>a. [a @ '':80'', a @ '':443'']) as))"
    by simp
  have "length (dialed evs) = size (mset (dialed evs))" by simp
  also have "\<dots> = length (concat (map (\<lambda>a. [a @ '':80'', a @ '':443'']) as))"
    by (simp only: m size_mset)
  also have "\<dots> = length as * 2"
    by (induction as) simp_all
  finally show ?thesis using m by simp
qed

theorem resolveOne_probes_all_witness:
  "LookupHost example_net ''up.test'' 0 = (Inr [''10.0.0.1'', ''10.0.0.2''], 1) \<and>
   dialed (fst (snd (resolveOne example_net ''up.test'' 0))) =
     [''10.0.0.1:443'', ''10.0.0.1:80'', ''10.0.0.2:80'', ''10.0.0.2:443''] \<and>
   length (dialed (fst (snd (resolveOne example_net ''up.test'' 0)))) = 4"
proof -
  have h: "LookupHost example_net ''up.test'' 0 = (Inr [''10.0.0.1'', ''10.0.0.2''], 1)"
    by (simp add: example_net_def)
  have d: "dialed (fst (snd (resolveOne example_net ''up.test'' 0))) =
     [''10.0.0.1:443'', ''10.0.0.1:80'', ''10.0.0.2:80'', ''10.0.0.2:443'']"
    by (simp add: resolveOne_up_test dialed_def)
  from resolveOne_probes_all[OF h resolveOne_up_test] h d show ?thesis by simp
qed

section \<open>Properties of resolveAll\<close>

subsection \<open>Every step uses up the bound\<close>

lemma sum_list_map_update:
  fixes f :: "'a \<Rightarrow> nat"
  shows "i < length ws \<Longrightarrow> sum_list (map f (ws[i := y])) + f (ws ! i) = sum_list (map f ws) + f y"
proof (induction ws arbitrary: i)
  case Nil
  then show ?case by simp
next
  case (Cons w ws)
  then show ?case by (cases i) auto
qed

lemma dispatcher_step_decreases:
  "\<not> panicked c \<Longrightarrow> dispatcher_step c = Some c' \<Longrightarrow> steps_left c' < steps_left c"
  by (auto simp: steps_left_def dispatcher_step_def chan_close_def wg_Add_def wg_Wait_def
      split: if_splits dispatcher.splits list.splits)

lemma worker_step_decreases:
  assumes "\<not> panicked c" "i < length (workers c)" "worker_step env w i c = Some c'"
  shows "steps_left c' < steps_left c"
proof (cases "workers c ! i")
  case (WResolve h)
  with assms sum_list_map_update[OF assms(2), of worker_steps "WSend (fst (resolveOne env h w))"]
  show ?thesis by (auto simp: steps_left_def worker_step_def)
next
  case (WSend r)
  with assms sum_list_map_update[OF assms(2), of worker_steps WDone]
  show ?thesis
    by (auto simp: steps_left_def worker_step_def chan_send_def split: if_splits)
next
  case WDone
  with assms sum_list_map_update[OF assms(2), of worker_steps WExit]
  show ?thesis
    by (auto simp: steps_left_def worker_step_def wg_Done_def wg_Add_def split: if_splits)
next
  case WExit
  with assms show ?thesis by (simp add: worker_step_def)
qed

lemma consumer_step_decreases:
  "\<not> panicked c \<Longrightarrow> consumer_step c = Some c' \<Longrightarrow> steps_left c' < steps_left c"
  by (auto simp: steps_left_def consumer_step_def chan_recv_def split: if_splits list.splits)

lemma steps_left_decreases:
  "step env worlds g c = Some c' \<Longrightarrow> steps_left c' < steps_left c"
  by (cases g)
     (auto simp: step_def dispatcher_step_decreases worker_step_decreases consumer_step_decreases
        split: if_splits)

lemma exec_steps_left:
  "exec env worlds sched c = Some c' \<Longrightarrow> length sched + steps_left c' \<le> steps_left c"
proof (induction sched arbitrary: c)
  case Nil
  then show ?case by simp
next
  case (Cons g gs)
  then obtain c1 where s: "step env worlds g c = Some c1" and e: "exec env worlds gs c1 = Some c'"
    by (auto split: option.splits)
  from steps_left_decreases[OF s] Cons.IH[OF e] show ?case by simp
qed


subsection \<open>The invariant holds along every run\<close>

lemma live_append: "live (ws @ [w]) = live ws + alive w"
  by (simp add: live_def)

lemma live_update: "i < length ws \<Longrightarrow> live (ws[i := y]) + alive (ws ! i) = live ws + alive y"
  unfolding live_def by (rule sum_list_map_update)

lemma live_pos: "i < length ws \<Longrightarrow> ws ! i \<noteq> WExit \<Longrightarrow> 0 < live ws"
proof -
  assume a: "i < length ws" "ws ! i \<noteq> WExit"
  then have "alive (ws ! i) = 1" by (cases "ws ! i") auto
  moreover have "alive (ws ! i) \<le> live ws"
    unfolding live_def using a(1) by (simp add: member_le_sum_list)
  ultimately show ?thesis by simp
qed

lemma live_0: "live ws = 0 \<Longrightarrow> w \<in> set ws \<Longrightarrow> w = WExit"
  by (metis in_set_conv_nth live_pos less_numeral_extra(3))

lemma sent_append:
  "sent res (ws @ [w]) = sent res ws + (if has_sent w then {#res (length ws)#} else {#})"
  by (simp add: sent_def nth_append)

lemma sent_update_split:
  assumes "i < length ws"
  shows "\<exists>R. sent res ws = (if has_sent (ws ! i) then {#res i#} else {#}) + R \<and>
             sent res (ws[i := y]) = (if has_sent y then {#res i#} else {#}) + R"
proof -
  let ?f = "\<lambda>ws j. if has_sent (ws ! j) then {#res j#} else {#}"
  let ?R = "\<Sum>j\<in>{..<length ws} - {i}. ?f ws j"
  have "sent res ws = ?f ws i + ?R"
    unfolding sent_def using assms by (subst sum.remove[of _ i]) auto
  moreover have "sent res (ws[i := y]) = ?f (ws[i := y]) i + (\<Sum>j\<in>{..<length ws} - {i}. ?f (ws[i := y]) j)"
    unfolding sent_def using assms by (subst sum.remove[of _ i]) auto
  moreover have "(\<Sum>j\<in>{..<length ws} - {i}. ?f (ws[i := y]) j) = ?R"
    by (rule sum.cong) auto
  ultimately show ?thesis using assms by auto
qed

lemma sent_update_same:
  "i < length ws \<Longrightarrow> has_sent (ws ! i) = has_sent y \<Longrightarrow> sent res (ws[i := y]) = sent res ws"
  using sent_update_split[of i ws res y] by auto

lemma sent_update_new:
  "i < length ws \<Longrightarrow> \<not> has_sent (ws ! i) \<Longrightarrow> has_sent y \<Longrightarrow>
     sent res (ws[i := y]) = add_mset (res i) (sent res ws)"
  using sent_update_split[of i ws res y] by auto

lemma sum_singletons: "(\<Sum>i<n. {#f i#}) = mset (map f [0..<n])"
  by (induction n) simp_all

lemma sent_all:
  assumes "\<forall>w \<in> set ws. has_sent w"
  shows "sent res ws = mset (map res [0..<length ws])"
proof -
  have "sent res ws = (\<Sum>i<length ws. {#res i#})"
    unfolding sent_def using assms by (intro sum.cong) auto
  then show ?thesis by (simp add: sum_singletons)
qed


lemma inv_resolveAll: "inv res hosts (resolveAll hosts)"
  by (simp add: inv_def resolveAll_def make_chan_def live_def sent_def)

lemma inv_dispatcher_step:
  assumes "inv res hosts c" "dispatcher_step c = Some c'"
  shows "inv res hosts c'"
proof (cases "disp c")
  case (DRange hs)
  with assms(1) have g: "hs = drop (length (workers c)) hosts" "wg c = int (live (workers c))"
    "\<not> chan_closed (rc c)"
    by (simp_all add: inv_def)
  show ?thesis
  proof (cases hs)
    case Nil
    with DRange assms(2) have w: "wg c = 0" and c': "c' = c\<lparr>disp := DClose\<rparr>"
      by (auto simp: dispatcher_step_def wg_Wait_def split: if_splits)
    from g(1) Nil assms(1) have "length (workers c) = length hosts" by (simp add: inv_def)
    with assms(1) g w show ?thesis by (simp add: inv_def c')
  next
    case (Cons h hs')
    with DRange assms(2) g(2) have c': "c' = c\<lparr>wg := wg c + 1, disp := DGo h hs'\<rparr>"
      by (auto simp: dispatcher_step_def wg_Add_def split: if_splits)
    with assms(1) g Cons show ?thesis by (simp add: inv_def c')
  qed
next
  case (DGo h hs)
  with assms have d: "h # hs = drop (length (workers c)) hosts" by (simp add: inv_def)
  then have n: "length (workers c) < length hosts"
    by (metis drop_eq_Nil list.distinct(1) not_le_imp_less)
  from d have h: "h = hosts ! length (workers c)" and hs: "hs = drop (Suc (length (workers c))) hosts"
    by (metis Cons_nth_drop_Suc n list.inject)+
  have c': "c' = c\<lparr>workers := workers c @ [WResolve h], disp := DRange hs\<rparr>"
    using assms(2) DGo by (simp add: dispatcher_step_def)
  have "good_worker res hosts i ((workers c @ [WResolve h]) ! i)" if "i < Suc (length (workers c))" for i
    using that assms(1) h by (cases "i = length (workers c)") (auto simp: inv_def nth_append)
  with assms(1) DGo n hs show ?thesis
    by (auto simp: c' inv_def live_append sent_append)
next
  case DClose
  with assms(1) have g: "\<not> chan_closed (rc c)" by (simp add: inv_def)
  with DClose assms(2) have c': "c' = c\<lparr>rc := (rc c)\<lparr>chan_closed := True\<rparr>, disp := DExit\<rparr>"
    by (simp add: dispatcher_step_def chan_close_def)
  with assms(1) DClose show ?thesis by (auto simp: inv_def c')
next
  case DExit
  with assms show ?thesis by (simp add: dispatcher_step_def)
qed

lemma inv_not_closed_if_live:
  "inv res hosts c \<Longrightarrow> i < length (workers c) \<Longrightarrow> workers c ! i \<noteq> WExit \<Longrightarrow>
     \<not> chan_closed (rc c) \<and> 0 < wg c \<and> (\<exists>hs. disp c = DRange hs \<or> (\<exists>h. disp c = DGo h hs))"
  using live_pos[of i "workers c"]
  by (cases "disp c") (auto simp: inv_def)

lemma inv_worker_step:
  assumes "inv (result_of env worlds hosts) hosts c" "i < length (workers c)"
    and "worker_step env (worlds i) i c = Some c'"
  shows "inv (result_of env worlds hosts) hosts c'"
proof -
  let ?res = "result_of env worlds hosts"
  let ?ws = "workers c"
  from assms(3) have ne: "?ws ! i \<noteq> WExit" by (auto simp: worker_step_def)
  note opn = inv_not_closed_if_live[OF assms(1,2) ne]
  have gw: "good_worker ?res hosts i (?ws ! i)" using assms(1,2) by (simp add: inv_def)
  have others: "good_worker ?res hosts j (?ws[i := y] ! j)"
    if "j < length ?ws" "good_worker ?res hosts i y" for j y
    using that assms(1) by (cases "j = i") (auto simp: inv_def)
  show ?thesis
  proof (cases "?ws ! i")
    case (WResolve h)
    let ?y = "WSend (fst (resolveOne env h (worlds i)))"
    have c': "c' = c\<lparr>workers := ?ws[i := ?y]\<rparr>"
      using assms(3) WResolve by (simp add: worker_step_def)
    have "good_worker ?res hosts i ?y" using gw WResolve by (simp add: result_of_def)
    note others[OF _ this]
    moreover have "live (?ws[i := ?y]) = live ?ws"
      using live_update[OF assms(2), of ?y] WResolve by simp
    moreover have "sent ?res (?ws[i := ?y]) = sent ?res ?ws"
      using WResolve assms(2) by (simp add: sent_update_same)
    ultimately show ?thesis using assms(1) opn
      by (auto simp: c' inv_def)
  next
    case (WSend r)
    have c': "c' = c\<lparr>rc := (rc c)\<lparr>chan_buf := chan_buf (rc c) @ [r]\<rparr>, workers := ?ws[i := WDone]\<rparr>"
      using assms(3) WSend opn by (auto simp: worker_step_def chan_send_def split: if_splits)
    have "good_worker ?res hosts i WDone" by simp
    note others[OF _ this]
    moreover have "live (?ws[i := WDone]) = live ?ws"
      using live_update[OF assms(2), of WDone] WSend by simp
    moreover have "sent ?res (?ws[i := WDone]) = add_mset r (sent ?res ?ws)"
      using WSend assms(2) gw by (simp add: sent_update_new)
    ultimately show ?thesis using assms(1) opn
      by (auto simp: c' inv_def)
  next
    case WDone
    have c': "c' = c\<lparr>wg := wg c - 1, workers := ?ws[i := WExit]\<rparr>"
      using assms(3) WDone opn by (auto simp: worker_step_def wg_Done_def wg_Add_def split: if_splits)
    have "good_worker ?res hosts i WExit" by simp
    note others[OF _ this]
    moreover have "live (?ws[i := WExit]) + 1 = live ?ws"
      using live_update[OF assms(2), of WExit] WDone by simp
    then have "int (live (?ws[i := WExit])) = int (live ?ws) - 1" by linarith
    moreover have "sent ?res (?ws[i := WExit]) = sent ?res ?ws"
      using WDone assms(2) by (simp add: sent_update_same)
    ultimately show ?thesis using assms(1) opn
      by (auto simp: c' inv_def)
  next
    case WExit
    with ne show ?thesis by simp
  qed
qed

lemma inv_consumer_step:
  assumes "inv res hosts c" "consumer_step c = Some c'"
  shows "inv res hosts c'"
proof (cases "chan_buf (rc c)")
  case Nil
  with assms(2) have "chan_closed (rc c)" and c': "c' = c\<lparr>rc := rc c, ranging := False\<rparr>"
    by (auto simp: consumer_step_def chan_recv_def split: if_splits)
  with assms(1) Nil show ?thesis by (simp add: inv_def c' split: dispatcher.splits)
next
  case (Cons x xs)
  with assms(2) have r: "ranging c"
    and c': "c' = c\<lparr>rc := (rc c)\<lparr>chan_buf := xs\<rparr>, received := received c @ [x]\<rparr>"
    by (auto simp: consumer_step_def chan_recv_def split: if_splits)
  with assms(1) Cons show ?thesis by (simp add: inv_def c' split: dispatcher.splits)
qed

lemma inv_step:
  assumes "inv (result_of env worlds hosts) hosts c" "step env worlds g c = Some c'"
  shows "inv (result_of env worlds hosts) hosts c'"
proof (cases g)
  case Dispatcher
  with assms(2) have "dispatcher_step c = Some c'" by (simp add: step_def split: if_splits)
  with assms(1) show ?thesis by (rule inv_dispatcher_step)
next
  case (Worker i)
  with assms(2) have "i < length (workers c)" "worker_step env (worlds i) i c = Some c'"
    by (simp_all add: step_def split: if_splits)
  with assms(1) show ?thesis by (rule inv_worker_step)
next
  case Consumer
  with assms(2) have "consumer_step c = Some c'" by (simp add: step_def split: if_splits)
  with assms(1) show ?thesis by (rule inv_consumer_step)
qed

lemma inv_exec:
  "inv (result_of env worlds hosts) hosts c \<Longrightarrow> exec env worlds sched c = Some c' \<Longrightarrow>
     inv (result_of env worlds hosts) hosts c'"
proof (induction sched arbitrary: c)
  case Nil
  then show ?case by simp
next
  case (Cons g gs)
  then obtain c1 where s: "step env worlds g c = Some c1" and e: "exec env worlds gs c1 = Some c'"
    by (auto split: option.splits)
  from Cons.IH[OF inv_step[OF Cons.prems(1) s] e] show ?case .
qed


lemma live_exists: "0 < live ws \<Longrightarrow> \<exists>i<length ws. ws ! i \<noteq> WExit"
proof (rule ccontr)
  assume l: "0 < live ws" and "\<not> (\<exists>i<length ws. ws ! i \<noteq> WExit)"
  then have "\<forall>w \<in> set ws. alive w = 0" by (auto simp: in_set_conv_nth)
  then have "live ws = 0" by (simp add: live_def)
  with l show False by simp
qed

lemma proceed_not_blocked: "r \<noteq> Blocked \<Longrightarrow> \<exists>c'. proceed r f c = Some c'"
  by (cases r) auto

lemma inv_progress:
  assumes "inv res hosts c" "ranging c"
  shows "\<exists>g c'. step env worlds g c = Some c'"
proof -
  from assms(1) have np: "\<not> panicked c" and cap: "chan_cap (rc c) = 2 ^ 10"
    by (simp_all add: inv_def)
  have consumer: "\<exists>g c'. step env worlds g c = Some c'" if "chan_recv (rc c) \<noteq> Blocked"
  proof -
    from proceed_not_blocked[OF that] have "\<exists>c'. consumer_step c = Some c'"
      using assms(2) by (simp add: consumer_step_def)
    then obtain c' where "step env worlds Consumer c = Some c'"
      using np by (auto simp: step_def)
    then show ?thesis by blast
  qed
  have dispatcher: "\<exists>g c'. step env worlds g c = Some c'" if "dispatcher_step c = Some c1" for c1
  proof -
    from that np have "step env worlds Dispatcher c = Some c1" by (simp add: step_def)
    then show ?thesis by blast
  qed
  have worker: "\<exists>g c'. step env worlds g c = Some c'"
    if "i < length (workers c)" "worker_step env (worlds i) i c = Some c1" for i c1
  proof -
    from that np have "step env worlds (Worker i) c = Some c1" by (simp add: step_def)
    then show ?thesis by blast
  qed
  show ?thesis
  proof (cases "chan_buf (rc c) = [] \<and> \<not> chan_closed (rc c)")
    case False
    then have "chan_recv (rc c) \<noteq> Blocked"
      by (auto simp: chan_recv_def split: list.splits)
    then show ?thesis by (rule consumer)
  next
    case True
    show ?thesis
    proof (cases "disp c")
      case (DRange hs)
      show ?thesis
      proof (cases hs)
        case (Cons h hs')
        with DRange have "\<exists>c1. dispatcher_step c = Some c1"
          by (simp add: dispatcher_step_def wg_Add_def proceed_not_blocked)
        then show ?thesis using dispatcher by blast
      next
        case Nil
        show ?thesis
        proof (cases "wg c = 0")
          case True
          with DRange Nil have "\<exists>c1. dispatcher_step c = Some c1"
            by (simp add: dispatcher_step_def wg_Wait_def)
          then show ?thesis using dispatcher by blast
        next
          case False
          with DRange assms(1) have "0 < live (workers c)" by (simp add: inv_def)
          then obtain i where i: "i < length (workers c)" "workers c ! i \<noteq> WExit"
            using live_exists by blast
          have "\<exists>c1. worker_step env (worlds i) i c = Some c1"
          proof (cases "workers c ! i")
            case (WResolve h)
            then show ?thesis by (simp add: worker_step_def)
          next
            case (WSend r)
            with True cap show ?thesis
              by (simp add: worker_step_def chan_send_def)
          next
            case WDone
            then show ?thesis
              by (simp add: worker_step_def wg_Done_def wg_Add_def proceed_not_blocked)
          next
            case WExit
            with i show ?thesis by simp
          qed
          then show ?thesis using worker[OF i(1)] by blast
        qed
      qed
    next
      case (DGo h hs)
      then have "\<exists>c1. dispatcher_step c = Some c1" by (simp add: dispatcher_step_def)
      then show ?thesis using dispatcher by blast
    next
      case DClose
      then have "\<exists>c1. dispatcher_step c = Some c1"
        by (simp add: dispatcher_step_def chan_close_def proceed_not_blocked)
      then show ?thesis using dispatcher by blast
    next
      case DExit
      with assms(1) True show ?thesis by (simp add: inv_def)
    qed
  qed
qed

subsection \<open>What the invariant gives\<close>

lemma resolveOne_name: "name (fst (resolveOne env host w)) = host"
proof (cases "LookupHost env host w")
  case (Pair res w1)
  show ?thesis
  proof (cases res)
    case (Inl e)
    with Pair show ?thesis by (simp add: resolveOne_failure)
  next
    case (Inr as)
    with Pair have "LookupHost env host w = (Inr as, w1)" by simp
    from resolveOne_success[OF this] show ?thesis
      by (metis fst_conv hostInfo.select_convs(1))
  qed
qed

lemma results_names: "map name (results env worlds hosts) = hosts"
  by (simp add: results_def resolveOne_name comp_def map_nth)

lemma inv_closed:
  assumes "inv (result_of env worlds hosts) hosts c" "chan_closed (rc c)"
  shows "length (workers c) = length hosts \<and> (\<forall>w \<in> set (workers c). w = WExit) \<and>
         mset (received c @ chan_buf (rc c)) = mset (results env worlds hosts)"
proof -
  from assms have d: "length (workers c) = length hosts" "live (workers c) = 0"
    by (cases "disp c"; simp add: inv_def)+
  then have e: "\<forall>w \<in> set (workers c). w = WExit" using live_0 by blast
  then have "\<forall>w \<in> set (workers c). has_sent w" by auto
  from sent_all[OF this, of "result_of env worlds hosts"] assms(1) d(1)
  have "mset (received c @ chan_buf (rc c)) = mset (results env worlds hosts)"
    by (simp add: inv_def results_def result_of_def[abs_def])
  with d(1) e show ?thesis by simp
qed

lemma steps_left_resolveAll: "steps_left (resolveAll hosts) = 6 * length hosts + 4"
  by (simp add: steps_left_def resolveAll_def make_chan_def)

lemma steps_left_pos: "\<not> panicked c \<Longrightarrow> 0 < steps_left c"
  by (simp add: steps_left_def)

lemma resolveOne_down_test: "resolveOne example_net ''down.test'' 0 =
  (\<lparr>name = ''down.test'', addrs = [], ports = [], err = Some ErrNoSuchHost\<rparr>,
   [EvLookupHost ''down.test''], 1)"
  by (simp add: resolveOne_failure example_net_def)

lemma exec_example:
  "exec example_net (\<lambda>i. 0) example_schedule (resolveAll [''up.test'', ''down.test'']) =
     Some \<lparr>disp = DExit, workers = [WExit, WExit], wg = 0,
           rc = \<lparr>chan_buf = [], chan_cap = 1024, chan_closed = True\<rparr>,
           received =
             [\<lparr>name = ''down.test'', addrs = [], ports = [], err = Some ErrNoSuchHost\<rparr>,
              \<lparr>name = ''up.test'', addrs = [''10.0.0.1'', ''10.0.0.2''], ports = [''80''],
                 err = None\<rparr>],
           ranging = False, panicked = False\<rparr>"
  by (simp add: example_schedule_def resolveAll_def make_chan_def step_def dispatcher_step_def
        worker_step_def consumer_step_def chan_send_def chan_recv_def chan_close_def
        wg_Add_def wg_Done_def wg_Wait_def resolveOne_up_test resolveOne_down_test)

lemma exec_example_single:
  "exec example_net (\<lambda>i. 0)
     [Dispatcher, Dispatcher, Worker 0, Worker 0, Worker 0, Dispatcher, Dispatcher, Consumer,
      Consumer]
     (resolveAll [''empty.test'']) =
     Some \<lparr>disp = DExit, workers = [WExit], wg = 0,
           rc = \<lparr>chan_buf = [], chan_cap = 1024, chan_closed = True\<rparr>,
           received = [\<lparr>name = ''empty.test'', addrs = [], ports = [], err = None\<rparr>],
           ranging = False, panicked = False\<rparr>"
  by (simp add: resolveAll_def make_chan_def step_def dispatcher_step_def
        worker_step_def consumer_step_def chan_send_def chan_recv_def chan_close_def
        wg_Add_def wg_Done_def wg_Wait_def resolveOne_empty_test)

lemma dial_ports_lookups:
  "dial_ports env t a ps pm w = (pm', evs, w') \<Longrightarrow> filter is_lookup evs = []"
  by (induction ps arbitrary: pm w pm' evs w')
     (auto simp: net_DialTimeout_def conn_Close_def split: prod.splits sum.splits)

lemma probe_addrs_lookups:
  "probe_addrs env t as pm w = (pm', evs, w') \<Longrightarrow> filter is_lookup evs = []"
proof (induction as arbitrary: pm w pm' evs w')
  case Nil
  then show ?case by simp
next
  case (Cons a as)
  obtain ks w1 where r: "map_range env pm w = (ks, w1)" by (cases "map_range env pm w")
  obtain pm1 evs1 w2 where d: "dial_ports env t a ks pm w1 = (pm1, evs1, w2)"
    by (cases "dial_ports env t a ks pm w1")
  obtain pm2 evs2 w3 where p: "probe_addrs env t as pm1 w2 = (pm2, evs2, w3)"
    by (cases "probe_addrs env t as pm1 w2")
  have e: "evs = evs1 @ evs2" using Cons.prems r d p by simp
  with Cons.IH[OF p] dial_ports_lookups[OF d] show ?case by simp
qed


section \<open>The claims about resolveAll\<close>

text \<open>
  C1. For every list of \<open>N\<close> hosts and every interleaving of the goroutines: a run has at
  most \<open>6 * N + 3\<close> steps; as long as the consumer is in its loop, some goroutine can
  take a step; and when the consumer has left its loop, the channel is closed and the
  consumer has read exactly \<open>N\<close> results, the results of \<open>resolveOne\<close> for the \<open>N\<close>
  entries of the list in some order, one result for each entry (a name listed twice gets
  two results; when the names of the list are distinct, so are the names of the results).
\<close>

theorem resolveAll_yields_all:
  assumes "exec env worlds sched (resolveAll hosts) = Some c"
  shows "length sched \<le> 6 * length hosts + 3 \<and>
         (ranging c \<longrightarrow> (\<exists>g c'. step env worlds g c = Some c')) \<and>
         (\<not> ranging c \<longrightarrow>
            chan_closed (rc c) \<and> length (received c) = length hosts \<and>
            mset (received c) = mset (results env worlds hosts) \<and>
            mset (map name (received c)) = mset hosts \<and>
            (distinct hosts \<longrightarrow> distinct (map name (received c))))"
proof -
  let ?res = "result_of env worlds hosts"
  have i: "inv ?res hosts c" using inv_exec[OF inv_resolveAll assms] .
  then have "0 < steps_left c" by (simp add: inv_def steps_left_pos)
  with exec_steps_left[OF assms] have a: "length sched \<le> 6 * length hosts + 3"
    by (simp add: steps_left_resolveAll)
  have b: "ranging c \<longrightarrow> (\<exists>g c'. step env worlds g c = Some c')"
    using inv_progress[OF i] by blast
  have c: "chan_closed (rc c) \<and> length (received c) = length hosts \<and>
           mset (received c) = mset (results env worlds hosts) \<and>
           mset (map name (received c)) = mset hosts \<and>
           (distinct hosts \<longrightarrow> distinct (map name (received c)))" if "\<not> ranging c"
  proof -
    from i that have cl: "chan_closed (rc c)" "chan_buf (rc c) = []" by (auto simp: inv_def)
    with inv_closed[OF i cl(1)] have m: "mset (received c) = mset (results env worlds hosts)"
      by simp
    then have "length (received c) = length (results env worlds hosts)"
      by (metis size_mset)
    moreover from m have n: "mset (map name (received c)) = mset hosts"
      by (metis mset_map results_names)
    moreover have d: "distinct hosts \<longrightarrow> distinct (map name (received c))"
      using mset_eq_imp_distinct_iff[OF n] by blast
    moreover have "length (results env worlds hosts) = length hosts"
      by (simp add: results_def)
    ultimately show ?thesis using cl(1) m by presburger
  qed
  from a b c show ?thesis by blast
qed

theorem resolveAll_yields_all_witness:
  "exec example_net (\<lambda>i. 0) example_schedule (resolveAll [''up.test'', ''down.test'']) =
     Some \<lparr>disp = DExit, workers = [WExit, WExit], wg = 0,
           rc = \<lparr>chan_buf = [], chan_cap = 1024, chan_closed = True\<rparr>,
           received =
             [\<lparr>name = ''down.test'', addrs = [], ports = [], err = Some ErrNoSuchHost\<rparr>,
              \<lparr>name = ''up.test'', addrs = [''10.0.0.1'', ''10.0.0.2''], ports = [''80''],
                 err = None\<rparr>],
           ranging = False, panicked = False\<rparr> \<and>
   length example_schedule \<le> 6 * length [''up.test'', ''down.test''] + 3 \<and>
   mset [\<lparr>name = ''down.test'', addrs = [], ports = [], err = Some ErrNoSuchHost\<rparr>,
         \<lparr>name = ''up.test'', addrs = [''10.0.0.1'', ''10.0.0.2''], ports = [''80''],
            err = None\<rparr>] =
     mset (results example_net (\<lambda>i. 0) [''up.test'', ''down.test''])"
  using resolveAll_yields_all[OF exec_example] exec_example by simp


text \<open>
  C2. At every point of every run: if the channel is closed, then every host has got its
  worker, every worker has sent its result and has ended, and the \<open>N\<close> results are all on
  the stream, read or buffered; the consumer leaves its loop only on a closed and empty
  channel, so only after all \<open>N\<close> sends; and no send ever meets a closed channel (the
  program does not panic).
\<close>

theorem close_after_all_sends:
  assumes "exec env worlds sched (resolveAll hosts) = Some c"
  shows "(chan_closed (rc c) \<longrightarrow>
            length (workers c) = length hosts \<and> (\<forall>w \<in> set (workers c). w = WExit) \<and>
            mset (received c @ chan_buf (rc c)) = mset (results env worlds hosts)) \<and>
         (\<not> ranging c \<longrightarrow> chan_closed (rc c) \<and> chan_buf (rc c) = []) \<and>
         \<not> panicked c"
proof -
  have i: "inv (result_of env worlds hosts) hosts c" using inv_exec[OF inv_resolveAll assms] .
  then have "\<not> ranging c \<longrightarrow> chan_closed (rc c) \<and> chan_buf (rc c) = []" "\<not> panicked c"
    by (auto simp: inv_def)
  with inv_closed[OF i] show ?thesis by blast
qed


theorem close_after_all_sends_witness:
  "exec example_net (\<lambda>i. 0)
     [Dispatcher, Dispatcher, Worker 0, Worker 0, Worker 0, Dispatcher, Dispatcher, Consumer,
      Consumer]
     (resolveAll [''empty.test'']) =
     Some \<lparr>disp = DExit, workers = [WExit], wg = 0,
           rc = \<lparr>chan_buf = [], chan_cap = 1024, chan_closed = True\<rparr>,
           received = [\<lparr>name = ''empty.test'', addrs = [], ports = [], err = None\<rparr>],
           ranging = False, panicked = False\<rparr> \<and>
   mset [\<lparr>name = ''empty.test'', addrs = [], ports = [], err = None\<rparr>] =
     mset (results example_net (\<lambda>i. 0) [''empty.test''])"
  using close_after_all_sends[OF exec_example_single] exec_example_single by simp


text \<open>
  C8. The constant of five seconds declared in \<open>resolveAll\<close> is used nowhere:
  \<open>resolveAll\<close> is the function without the declaration, so their runs are the same;
  the only call of \<^verbatim>\<open>net.LookupHost\<close> in \<open>resolveOne\<close> gets the host name and nothing
  else, and no call of \<^verbatim>\<open>net.DialTimeout\<close> gets a timeout of five seconds.
\<close>

theorem resolveAll_timeout_unused:
  "resolveAll hosts = resolveAll_without_timeout hosts \<and>
   exec env worlds sched (resolveAll hosts) = exec env worlds sched (resolveAll_without_timeout hosts) \<and>
   filter is_lookup (fst (snd (resolveOne env host w))) = [EvLookupHost host] \<and>
   EvDialTimeout n x (Second * 5) r \<notin> set (fst (snd (resolveOne env host w)))"
proof -
  have a: "resolveAll hosts = resolveAll_without_timeout hosts"
    by (simp add: resolveAll_def resolveAll_without_timeout_def)
  have b: "filter is_lookup (fst (snd (resolveOne env host w))) = [EvLookupHost host] \<and>
           EvDialTimeout n x (Second * 5) r \<notin> set (fst (snd (resolveOne env host w)))"
  proof (cases "LookupHost env host w")
    case (Pair res w1)
    show ?thesis
    proof (cases res)
      case (Inl e)
      with Pair show ?thesis by (simp add: resolveOne_failure)
    next
      case (Inr as)
      with Pair have "LookupHost env host w = (Inr as, w1)" by simp
      then obtain pm evs1 w2 ks w3 where
        p: "probe_addrs env (Second * 3) as [(''80'', False), (''443'', False)] w1 = (pm, evs1, w2)"
        and e: "resolveOne env host w =
         (\<lparr>name = host, addrs = as, ports = filter (map_index pm) ks, err = None\<rparr>,
          EvLookupHost host # evs1, w3)"
        by (rule resolveOne_success)
      have "EvDialTimeout n x (Second * 5) r \<notin> set evs1"
        using probe_addrs_uses[OF p, of n x "Second * 5" r] by (auto simp: Second_def)
      with probe_addrs_lookups[OF p] e show ?thesis by simp
    qed
  qed
  from a b show ?thesis by simp
qed


end
